theory Spec2Isabelle
  imports Main "HOL-Library.AList" "HOL-Library.Multiset"
begin

section \<open>Python values used by the carrier manager\<close>

text \<open>
  Exceptions of the Python run time that the modelled functions can raise. A raise is the
  \<open>Inl\<close> branch of a result.
\<close>

datatype error = IndexError | ValueError | KeyError | UnboundLocalError

subsection \<open>Integers as text: \<open>format\<close>, \<open>int()\<close> and \<open>re.split\<close>\<close>

definition digit_char :: "nat \<Rightarrow> char" where
  "digit_char d = char_of (48 + d)"

function str_nat :: "nat \<Rightarrow> string" where
  "str_nat n = (if n < 10 then [digit_char n] else str_nat (n div 10) @ [digit_char (n mod 10)])"
  by pat_completeness auto
termination
  by (relation "measure id") auto

declare str_nat.simps [simp del]

text \<open>\<open>'{i}'.format(i=k)\<close> for an integer \<open>k\<close>: its decimal numeral.\<close>

definition str_int :: "int \<Rightarrow> string" where
  "str_int k = (if k < 0 then CHR ''-'' # str_nat (nat (- k)) else str_nat (nat k))"

definition is_digit :: "char \<Rightarrow> bool" where
  "is_digit c = (48 \<le> (of_char c :: nat) \<and> (of_char c :: nat) \<le> 57)"

definition digit_val :: "char \<Rightarrow> nat" where
  "digit_val c = of_char c - 48"

text \<open>The characters below code point 256 that Python counts as white space.\<close>

definition is_space :: "char \<Rightarrow> bool" where
  "is_space c = ((of_char c :: nat) \<in> {9, 10, 11, 12, 13, 28, 29, 30, 31, 32, 133, 160})"

definition strip :: "string \<Rightarrow> string" where
  "strip s = rev (dropWhile is_space (rev (dropWhile is_space s)))"

text \<open>
  The digits of an integer literal: decimal digits, with single underscores allowed
  between two digits. The flag says whether the previous character was a digit.
\<close>

fun py_digits :: "bool \<Rightarrow> nat \<Rightarrow> string \<Rightarrow> nat option" where
  "py_digits prev acc [] = (if prev then Some acc else None)"
| "py_digits prev acc (c # cs) =
     (if is_digit c then py_digits True (acc * 10 + digit_val c) cs
      else if c = CHR ''_'' \<and> prev then py_digits False acc cs
      else None)"

text \<open>
  \<open>int(s)\<close> for a string: surrounding white space is dropped, one sign is allowed;
  \<open>None\<close> stands for the ValueError of a string that is no integer literal.
\<close>

definition py_int :: "string \<Rightarrow> int option" where
  "py_int s =
     (case strip s of
        [] \<Rightarrow> None
      | c # cs \<Rightarrow>
          if c = CHR ''-'' then map_option (\<lambda>n. - int n) (py_digits False 0 cs)
          else if c = CHR ''+'' then map_option int (py_digits False 0 cs)
          else map_option int (py_digits False 0 (c # cs)))"

text \<open>\<open>re.split(':', s)\<close>: the pieces of \<open>s\<close> between its colons (never an empty list).\<close>

fun split_colon :: "string \<Rightarrow> string list" where
  "split_colon [] = [[]]"
| "split_colon (c # cs) =
     (if c = CHR '':'' then [] # split_colon cs
      else (case split_colon cs of [] \<Rightarrow> [[c]] | p # ps \<Rightarrow> (c # p) # ps))"

text \<open>The carrier code \<open>'{i}:{j}:{channel}:{u_code}'\<close>.\<close>

definition carrier_code :: "int \<Rightarrow> int \<Rightarrow> int \<Rightarrow> string \<Rightarrow> string" where
  "carrier_code i j channel u_code =
     str_int i @ '':'' @ str_int j @ '':'' @ str_int channel @ '':'' @ u_code"

subsection \<open>The channel list: a numpy array of floats\<close>

text \<open>
  \<open>channel_list\<close> is \<open>np.zeros(shape = [n_i + 4, n_j + 8, channels])\<close>: a three-dimensional
  array of float64, \<open>0\<close> in an unallocated slot. Indexing an axis of length \<open>n\<close> with
  \<open>k\<close> reads position \<open>k\<close> for \<open>0 \<le> k < n\<close>, position \<open>k + n\<close> for \<open>-n \<le> k < 0\<close>, and
  raises IndexError otherwise.
\<close>

record grid =
  rows :: nat
  cols :: nat
  chans :: nat
  cells :: "nat \<times> nat \<times> nat \<Rightarrow> int"

definition np_zeros :: "nat \<Rightarrow> nat \<Rightarrow> nat \<Rightarrow> grid" where
  "np_zeros r c k = \<lparr>rows = r, cols = c, chans = k, cells = (\<lambda>_. 0)\<rparr>"

definition np_index :: "nat \<Rightarrow> int \<Rightarrow> error + nat" where
  "np_index n k =
     (if 0 \<le> k \<and> k < int n then Inr (nat k)
      else if - int n \<le> k \<and> k < 0 then Inr (nat (k + int n))
      else Inl IndexError)"

text \<open>The position that \<open>channel_list[i][j][channel]\<close> names, checked axis by axis.\<close>

definition slot :: "grid \<Rightarrow> int \<Rightarrow> int \<Rightarrow> int \<Rightarrow> error + nat \<times> nat \<times> nat" where
  "slot g i j channel =
     (case np_index (rows g) i of
        Inl e \<Rightarrow> Inl e
      | Inr a \<Rightarrow>
          (case np_index (cols g) j of
             Inl e \<Rightarrow> Inl e
           | Inr b \<Rightarrow>
               (case np_index (chans g) channel of
                  Inl e \<Rightarrow> Inl e
                | Inr c \<Rightarrow> Inr (a, b, c))))"

definition grid_get :: "grid \<Rightarrow> int \<Rightarrow> int \<Rightarrow> int \<Rightarrow> error + int" where
  "grid_get g i j channel =
     (case slot g i j channel of Inl e \<Rightarrow> Inl e | Inr s \<Rightarrow> Inr (cells g s))"

text \<open>\<open>channel_list[i][j][channel] = v\<close> for a number \<open>v\<close>.\<close>

definition grid_put :: "grid \<Rightarrow> int \<Rightarrow> int \<Rightarrow> int \<Rightarrow> int \<Rightarrow> error + grid" where
  "grid_put g i j channel v =
     (case slot g i j channel of Inl e \<Rightarrow> Inl e
      | Inr s \<Rightarrow> Inr (g\<lparr>cells := (cells g)(s := v)\<rparr>))"

text \<open>
  Storing a unique code, a string, in the float array makes numpy convert it with
  \<open>float()\<close>, which raises ValueError on text that is no number. The carrier codes of
  this program are integer numerals (\<open>generate_random_carrier\<close> takes \<open>str\<close> of an
  integer and reads them back with \<open>int\<close>), so the model converts integer literals, to
  their value, and raises on every other string; literals with a fraction or an exponent
  are outside the model.
\<close>

definition np_cast :: "string \<Rightarrow> error + int" where
  "np_cast u_code = (case py_int u_code of None \<Rightarrow> Inl ValueError | Some v \<Rightarrow> Inr v)"

text \<open>
  \<open>channel_list[i][j][channel] = ucode\<close> for a string: the position is found first, then
  the string is converted.
\<close>

definition grid_store :: "grid \<Rightarrow> int \<Rightarrow> int \<Rightarrow> int \<Rightarrow> string \<Rightarrow> error + grid" where
  "grid_store g i j channel ucode =
     (case slot g i j channel of Inl e \<Rightarrow> Inl e
      | Inr s \<Rightarrow>
          (case np_cast ucode of Inl e \<Rightarrow> Inl e
           | Inr v \<Rightarrow> Inr (g\<lparr>cells := (cells g)(s := v)\<rparr>)))"

text \<open>\<open>np.arange(n)\<close>.\<close>

definition np_arange :: "nat \<Rightarrow> int list" where
  "np_arange n = map int [0..<n]"

subsection \<open>Carriers, raw records and the dictionary of allocated carriers\<close>

text \<open>
  \<open>allocated_carriers\<close> is a Python dict from carrier code to priority. It is modelled
  as an association list in insertion order: \<open>d[k] = v\<close> is \<open>AList.update k v d\<close>
  (in place for a key that is there, appended otherwise), \<open>del d[k]\<close> is
  \<open>AList.delete k d\<close>, and \<open>d[k]\<close> is \<open>map_of d k\<close>, raising KeyError on \<open>None\<close>.
  Priorities are whole numbers (\<open>generate_random_carrier\<close> draws them from
  \<open>0 .. 9\<close>), on which \<open>float()\<close>, \<open>+ 1\<close> and \<open>\<le>\<close> are exact, so they are integers here.
\<close>

type_synonym registry = "(string \<times> int) list"

type_synonym state = "grid \<times> registry"

text \<open>
  A new carrier: the dict with keys \<open>i\<close>, \<open>j\<close>, \<open>priority\<close>, \<open>ucode\<close>, to which the manager
  adds \<open>imperfect_channels\<close>, \<open>good_channels\<close> and \<open>final_priority\<close>.
\<close>

record carrier =
  car_i :: int
  car_j :: int
  car_priority :: int
  car_ucode :: string
  imperfect_channels :: "int list option"
  good_channels :: "int list option"
  final_priority :: "int option"

text \<open>A raw carrier: the dict with keys \<open>i\<close>, \<open>j\<close>, \<open>channel\<close>, \<open>ucode\<close>, \<open>priority\<close>.\<close>

record raw_carrier =
  raw_i :: int
  raw_j :: int
  raw_channel :: int
  raw_ucode :: string
  raw_priority :: int

section \<open>The 19-beam region\<close>

text \<open>\<open>create_neighbour_coords\<close>: the 18 beams around the centre, in the order of the loops.\<close>

definition create_neighbour_coords :: "int \<Rightarrow> int \<Rightarrow> (int \<times> int) list" where
  "create_neighbour_coords c_i c_j =
     concat (map (\<lambda>i. map (\<lambda>j. (i, j)) [c_j - 1, c_j + 1, c_j - 3, c_j + 3]) [c_i - 1, c_i + 1])
     @ map (\<lambda>j. (c_i, j)) [c_j - 2, c_j + 2, c_j - 4, c_j + 4]
     @ concat (map (\<lambda>i. map (\<lambda>j. (i, j)) [c_j - 1, c_j, c_j + 1]) [c_i - 2, c_i + 2])"



lemma neighbour_coords_list:
  "create_neighbour_coords c_i c_j =
     [(c_i - 1, c_j - 1), (c_i - 1, c_j + 1), (c_i - 1, c_j - 3), (c_i - 1, c_j + 3),
      (c_i + 1, c_j - 1), (c_i + 1, c_j + 1), (c_i + 1, c_j - 3), (c_i + 1, c_j + 3),
      (c_i, c_j - 2), (c_i, c_j + 2), (c_i, c_j - 4), (c_i, c_j + 4),
      (c_i - 2, c_j - 1), (c_i - 2, c_j), (c_i - 2, c_j + 1),
      (c_i + 2, c_j - 1), (c_i + 2, c_j), (c_i + 2, c_j + 1)]"
  by (simp add: create_neighbour_coords_def)

lemma neighbour_coords_length: "length (create_neighbour_coords c_i c_j) = 18"
  by (simp add: neighbour_coords_list)

lemma neighbour_coords_distinct: "distinct (create_neighbour_coords c_i c_j)"
  by (simp add: neighbour_coords_list)



section \<open>Scanning the region of a beam\<close>

text \<open>
  The inner loop of \<open>scan_carriers\<close>: one is added to the score of the channel for every
  neighbour beam in which the channel is allocated.
\<close>

fun count_neighbours :: "grid \<Rightarrow> int \<Rightarrow> (int \<times> int) list \<Rightarrow> int list \<Rightarrow> error + int list" where
  "count_neighbours g channel [] imp = Inr imp"
| "count_neighbours g channel (b # bs) imp =
     (case grid_get g (fst b) (snd b) channel of
        Inl e \<Rightarrow> Inl e
      | Inr v \<Rightarrow>
          count_neighbours g channel bs
            (if v \<noteq> 0 then imp[nat channel := imp ! nat channel + 1] else imp))"

text \<open>
  The loop over \<open>possible_channels\<close>, on the pair \<open>(good_channels, imperfect_channels)\<close>.
  A channel is read in \<open>channel_list\<close> before it indexes \<open>imperfect_channels\<close>, which has
  the length of the channel axis, so that index is in range wherever it is reached.
\<close>

fun scan_channels ::
  "grid \<Rightarrow> int \<Rightarrow> int \<Rightarrow> int \<Rightarrow> (int \<times> int) list \<Rightarrow> int list \<Rightarrow> int list \<times> int list
   \<Rightarrow> error + int list \<times> int list" where
  "scan_channels g centre_i centre_j priority neighbour_coords [] (good, imp) = Inr (good, imp)"
| "scan_channels g centre_i centre_j priority neighbour_coords (channel # chs) (good, imp) =
     (case grid_get g centre_i centre_j channel of
        Inl e \<Rightarrow> Inl e
      | Inr v \<Rightarrow>
          (case count_neighbours g channel neighbour_coords
                  (if v \<noteq> 0 then imp[nat channel := 100] else imp) of
             Inl e \<Rightarrow> Inl e
           | Inr imp' \<Rightarrow>
               scan_channels g centre_i centre_j priority neighbour_coords chs
                 (if imp' ! nat channel \<le> priority then good @ [channel] else good, imp')))"

text \<open>
  \<open>scan_carriers\<close>. \<open>len(channel_list[0][0])\<close> raises IndexError on an array without rows
  or columns. The callers leave \<open>possible_channels\<close> at its default, \<open>np.arange(40)\<close>.
\<close>

definition scan_carriers ::
  "int \<Rightarrow> int \<Rightarrow> grid \<Rightarrow> int \<Rightarrow> int list \<Rightarrow> error + int list \<times> int list" where
  "scan_carriers centre_i centre_j channel_list priority possible_channels =
     (if rows channel_list = 0 \<or> cols channel_list = 0 then Inl IndexError
      else scan_channels channel_list centre_i centre_j priority
             (create_neighbour_coords centre_i centre_j) possible_channels
             ([], replicate (chans channel_list) 0))"

text \<open>
  The scan as the specification words it: a channel is occupied in a beam when its slot
  there is not \<open>0\<close>; its score is 100 if it is occupied in the beam itself, plus one for
  every neighbour coordinate where it is occupied.
\<close>

definition occupied :: "grid \<Rightarrow> int \<times> int \<Rightarrow> int \<Rightarrow> bool" where
  "occupied g b channel =
     (case grid_get g (fst b) (snd b) channel of Inl _ \<Rightarrow> False | Inr v \<Rightarrow> v \<noteq> 0)"

definition score :: "grid \<Rightarrow> int \<Rightarrow> int \<Rightarrow> int \<Rightarrow> int" where
  "score g centre_i centre_j channel =
     (if occupied g (centre_i, centre_j) channel then 100 else 0)
     + int (length (filter (\<lambda>b. occupied g b channel) (create_neighbour_coords centre_i centre_j)))"

definition admissible :: "grid \<Rightarrow> int \<Rightarrow> int \<Rightarrow> int \<Rightarrow> int list" where
  "admissible g centre_i centre_j threshold =
     filter (\<lambda>channel. score g centre_i centre_j channel \<le> threshold) (np_arange 40)"

definition score_vector :: "grid \<Rightarrow> int \<Rightarrow> int \<Rightarrow> int list" where
  "score_vector g centre_i centre_j =
     map (\<lambda>k. if k < 40 then score g centre_i centre_j (int k) else 0) [0..<chans g]"

text \<open>
  A beam whose region can be scanned: it lies inside the logical extent of the array
  (two rows and four columns away from every edge) and the array has the 40 channels
  that the scan visits.
\<close>

definition valid_beam :: "grid \<Rightarrow> int \<Rightarrow> int \<Rightarrow> bool" where
  "valid_beam g c_i c_j =
     (2 \<le> c_i \<and> c_i + 2 < int (rows g) \<and> 4 \<le> c_j \<and> c_j + 4 < int (cols g) \<and> 40 \<le> chans g)"

subsection \<open>The scan in closed form\<close>

text \<open>
  A channel is readable around a beam when the beam and its 18 neighbours are positions
  of the array for that channel; a beam is scannable when all 40 channels are.
\<close>

lemma grid_get_error: "grid_get g i j c = Inl e \<Longrightarrow> e = IndexError"
  by (auto simp: grid_get_def slot_def np_index_def split: sum.splits if_splits)

lemma count_neighbours_closed:
  assumes "\<forall>b \<in> set bs. \<exists>v. grid_get g (fst b) (snd b) channel = Inr v"
    and "nat channel < length imp"
  shows "count_neighbours g channel bs imp =
           Inr (imp[nat channel := imp ! nat channel + int (length (filter (\<lambda>b. occupied g b channel) bs))])"
  using assms
proof (induction bs arbitrary: imp)
  case Nil
  then show ?case by simp
next
  case (Cons b bs)
  then obtain v where v: "grid_get g (fst b) (snd b) channel = Inr v" by auto
  show ?case
  proof (cases "v = 0")
    case True
    with v Cons show ?thesis by (simp add: occupied_def)
  next
    case False
    with v Cons show ?thesis by (simp add: occupied_def add.assoc)
  qed
qed

lemma count_neighbours_Inr:
  "count_neighbours g channel bs imp = Inr r \<Longrightarrow>
     \<forall>b \<in> set bs. \<exists>v. grid_get g (fst b) (snd b) channel = Inr v"
  by (induction bs arbitrary: imp) (auto split: sum.splits)

definition readable :: "grid \<Rightarrow> int \<Rightarrow> int \<Rightarrow> int \<Rightarrow> bool" where
  "readable g c_i c_j channel =
     (\<forall>b \<in> set ((c_i, c_j) # create_neighbour_coords c_i c_j).
        \<exists>v. grid_get g (fst b) (snd b) channel = Inr v)"

lemma scan_channels_closed:
  assumes "distinct chs"
    and "\<forall>ch \<in> set chs. 0 \<le> ch \<and> nat ch < length imp \<and> imp ! nat ch = 0"
    and "\<forall>ch \<in> set chs. readable g c_i c_j ch"
  shows "scan_channels g c_i c_j p (create_neighbour_coords c_i c_j) chs (good, imp) =
           Inr (good @ filter (\<lambda>ch. score g c_i c_j ch \<le> p) chs,
                foldl (\<lambda>a ch. a[nat ch := score g c_i c_j ch]) imp chs)"
  using assms
proof (induction chs arbitrary: good imp)
  case Nil
  then show ?case by simp
next
  case (Cons ch chs)
  let ?ns = "create_neighbour_coords c_i c_j"
  from Cons.prems have rd: "readable g c_i c_j ch" by simp
  then obtain v where v: "grid_get g c_i c_j ch = Inr v"
    by (auto simp: readable_def)
  from rd have nb: "\<forall>b \<in> set ?ns. \<exists>v. grid_get g (fst b) (snd b) ch = Inr v"
    by (simp add: readable_def)
  from Cons.prems have k: "nat ch < length imp" and z: "imp ! nat ch = 0" and nn: "0 \<le> ch"
    by simp_all
  let ?imp1 = "if v \<noteq> 0 then imp[nat ch := 100] else imp"
  have imp1: "?imp1 = imp[nat ch := (if occupied g (c_i, c_j) ch then 100 else 0)]"
  proof (cases "v = 0")
    case True
    have "imp[nat ch := imp ! nat ch] = imp" by (rule list_update_id)
    with True v z show ?thesis by (simp add: occupied_def)
  next
    case False
    with v show ?thesis by (simp add: occupied_def)
  qed
  have cnt: "count_neighbours g ch ?ns ?imp1 = Inr (imp[nat ch := score g c_i c_j ch])"
    using count_neighbours_closed [OF nb, of ?imp1] k
    by (simp only: imp1) (simp add: score_def)
  let ?imp2 = "imp[nat ch := score g c_i c_j ch]"
  have at: "?imp2 ! nat ch = score g c_i c_j ch" using k by simp
  have rest: "\<forall>c \<in> set chs. 0 \<le> c \<and> nat c < length ?imp2 \<and> ?imp2 ! nat c = 0"
  proof
    fix c assume c: "c \<in> set chs"
    with Cons.prems have "c \<noteq> ch" "0 \<le> c" "nat c < length imp" "imp ! nat c = 0" by auto
    with nn show "0 \<le> c \<and> nat c < length ?imp2 \<and> ?imp2 ! nat c = 0" by simp
  qed
  have ih: "scan_channels g c_i c_j p ?ns chs (good', ?imp2) =
              Inr (good' @ filter (\<lambda>ch. score g c_i c_j ch \<le> p) chs,
                   foldl (\<lambda>a ch. a[nat ch := score g c_i c_j ch]) ?imp2 chs)" for good'
    using Cons.IH [OF _ rest] Cons.prems by simp
  have "scan_channels g c_i c_j p ?ns (ch # chs) (good, imp) =
          (case count_neighbours g ch ?ns ?imp1 of
             Inl e \<Rightarrow> Inl e
           | Inr imp' \<Rightarrow>
               scan_channels g c_i c_j p ?ns chs
                 (if imp' ! nat ch \<le> p then good @ [ch] else good, imp'))"
    using v by simp
  also have "\<dots> = scan_channels g c_i c_j p ?ns chs
                      (if score g c_i c_j ch \<le> p then good @ [ch] else good, ?imp2)"
    by (simp only: cnt sum.case at)
  also have "\<dots> = Inr (good @ filter (\<lambda>ch. score g c_i c_j ch \<le> p) (ch # chs),
                        foldl (\<lambda>a ch. a[nat ch := score g c_i c_j ch]) imp (ch # chs))"
    by (simp add: ih)
  finally show ?case .
qed

lemma scan_channels_Inr:
  "scan_channels g c_i c_j p (create_neighbour_coords c_i c_j) chs acc = Inr r \<Longrightarrow>
     \<forall>ch \<in> set chs. readable g c_i c_j ch"
proof (induction chs arbitrary: acc)
  case Nil
  then show ?case by simp
next
  case (Cons ch chs)
  obtain good imp where acc: "acc = (good, imp)" by (cases acc)
  from Cons show ?case unfolding acc
    by (auto simp: readable_def split: sum.splits dest: count_neighbours_Inr)
qed

definition scannable :: "grid \<Rightarrow> int \<Rightarrow> int \<Rightarrow> bool" where
  "scannable g c_i c_j = (\<forall>ch \<in> set (np_arange 40). readable g c_i c_j ch)"

lemma foldl_scores:
  "m \<le> n \<Longrightarrow>
     foldl (\<lambda>a ch. a[nat ch := f ch]) (replicate n (0::int)) (map int [0..<m]) =
     map (\<lambda>k. if k < m then f (int k) else 0) [0..<n]"
proof (induction m)
  case 0
  then show ?case by (simp add: map_replicate_const)
next
  case (Suc m)
  then have "foldl (\<lambda>a ch. a[nat ch := f ch]) (replicate n 0) (map int [0..<Suc m]) =
               (map (\<lambda>k. if k < m then f (int k) else 0) [0..<n])[m := f (int m)]"
    by simp
  also have "\<dots> = map (\<lambda>k. if k < Suc m then f (int k) else 0) [0..<n]"
    using Suc.prems by (intro nth_equalityI) (auto simp: nth_list_update)
  finally show ?case .
qed

lemma readable_dims:
  assumes "readable g c_i c_j ch" and "0 \<le> ch"
  shows "0 < rows g \<and> 0 < cols g \<and> nat ch < chans g"
proof -
  from assms(1) obtain v where "grid_get g c_i c_j ch = Inr v"
    by (auto simp: readable_def)
  with assms(2) show ?thesis
    by (auto simp: grid_get_def slot_def np_index_def split: sum.splits if_splits)
qed

lemma scan_carriers_closed:
  assumes "scannable g c_i c_j"
  shows "scan_carriers c_i c_j g p (np_arange 40) =
           Inr (admissible g c_i c_j p, score_vector g c_i c_j)"
proof -
  have "(39::int) \<in> set (np_arange 40)" by (simp add: np_arange_def image_iff)
  with assms have "readable g c_i c_j 39" unfolding scannable_def by blast
  from readable_dims [OF this] have dims: "0 < rows g" "0 < cols g" "40 \<le> chans g" by simp_all
  have d: "distinct (np_arange 40)" by (simp add: np_arange_def distinct_map)
  have z: "\<forall>ch \<in> set (np_arange 40).
             0 \<le> ch \<and> nat ch < length (replicate (chans g) (0::int)) \<and> replicate (chans g) (0::int) ! nat ch = 0"
    using dims by (auto simp: np_arange_def)
  have r: "\<forall>ch \<in> set (np_arange 40). readable g c_i c_j ch"
    using assms by (simp add: scannable_def)
  have "foldl (\<lambda>a ch. a[nat ch := score g c_i c_j ch]) (replicate (chans g) 0) (np_arange 40) =
          score_vector g c_i c_j"
    unfolding np_arange_def score_vector_def using dims(3) by (rule foldl_scores)
  with scan_channels_closed [OF d z r, of p "[]"] dims show ?thesis
    by (simp add: scan_carriers_def admissible_def)
qed

lemma scan_carriers_Inr:
  assumes "scan_carriers c_i c_j g p (np_arange 40) = Inr r"
  shows "scannable g c_i c_j"
  using assms scan_channels_Inr unfolding scan_carriers_def scannable_def
  by (auto split: if_splits)

lemma count_neighbours_error:
  "count_neighbours g ch bs imp = Inl e \<Longrightarrow> e = IndexError"
  by (induction bs arbitrary: imp) (auto split: sum.splits dest: grid_get_error)

lemma scan_channels_error:
  "scan_channels g c_i c_j p ns chs acc = Inl e \<Longrightarrow> e = IndexError"
proof (induction chs arbitrary: acc)
  case Nil
  then show ?case by (cases acc) simp
next
  case (Cons ch chs)
  obtain good imp where acc: "acc = (good, imp)" by (cases acc)
  from Cons show ?case unfolding acc
    by (auto split: sum.splits dest: grid_get_error count_neighbours_error)
qed

lemma scan_carriers_error:
  "scan_carriers c_i c_j g p chs = Inl e \<Longrightarrow> e = IndexError"
  by (auto simp: scan_carriers_def split: if_splits dest: scan_channels_error)

lemma valid_beam_scannable:
  assumes "valid_beam g c_i c_j"
  shows "scannable g c_i c_j"
  unfolding scannable_def readable_def
proof (intro ballI)
  fix ch b
  assume ch: "ch \<in> set (np_arange 40)" and b: "b \<in> set ((c_i, c_j) # create_neighbour_coords c_i c_j)"
  from ch have c: "0 \<le> ch" "ch < 40" by (auto simp: np_arange_def)
  from b have "c_i - 2 \<le> fst b \<and> fst b \<le> c_i + 2 \<and> c_j - 4 \<le> snd b \<and> snd b \<le> c_j + 4"
    by (auto simp: neighbour_coords_list)
  with assms c show "\<exists>v. grid_get g (fst b) (snd b) ch = Inr v"
    by (simp add: valid_beam_def grid_get_def slot_def np_index_def)
qed

lemma score_bounds: "0 \<le> score g c_i c_j ch \<and> score g c_i c_j ch \<le> 118"
proof -
  have "length (filter (\<lambda>b. occupied g b ch) (create_neighbour_coords c_i c_j)) \<le> 18"
    using length_filter_le [of _ "create_neighbour_coords c_i c_j"]
    by (simp add: neighbour_coords_length)
  then show ?thesis by (simp add: score_def)
qed

lemma admissible_nonempty: "118 \<le> p \<Longrightarrow> admissible g c_i c_j p \<noteq> []"
proof -
  assume "118 \<le> p"
  with score_bounds [of g c_i c_j 0] have "score g c_i c_j 0 \<le> p" by simp
  moreover have "(0::int) \<in> set (np_arange 40)" by (simp add: np_arange_def)
  ultimately have "0 \<in> set (admissible g c_i c_j p)" by (simp add: admissible_def)
  then show ?thesis by auto
qed

section \<open>Assigning and deallocating\<close>

text \<open>
  \<open>assign_carrier\<close>: the slot is written first, then the dictionary entry. Both arrays
  are changed in place; when the write of the slot raises, nothing has been changed.
\<close>

definition assign_carrier ::
  "state \<Rightarrow> int \<Rightarrow> int \<Rightarrow> int \<Rightarrow> string \<Rightarrow> int \<Rightarrow> error + state" where
  "assign_carrier st c_i c_j channel ucode priority =
     (case grid_store (fst st) c_i c_j channel ucode of
        Inl e \<Rightarrow> Inl e
      | Inr channel_list \<Rightarrow>
          Inr (channel_list, AList.update (carrier_code c_i c_j channel ucode) priority (snd st)))"

text \<open>
  \<open>deallocate_carrier\<close>. The result pairs the exception that leaves the function, if any,
  with the arrays as the function leaves them, since it changes them in place.

  The body of the \<open>try\<close> splits the code, looks the priority up, deletes the entry and
  clears the slot. Whatever it raises is caught by the bare \<open>except\<close>, whose first
  statement calls \<open>assign_carrier\<close> with \<open>i\<close>, \<open>j\<close>, \<open>channel\<close>, \<open>ucode\<close> and \<open>priority\<close>:
  reading the first of them that was never bound raises UnboundLocalError; when all
  are bound, \<open>i\<close> is still the string cut from the code, and indexing the array with a
  string raises IndexError. Either exception leaves the function.
\<close>

definition deallocate_handler :: "bool \<Rightarrow> bool \<Rightarrow> error" where
  "deallocate_handler parts_bound priority_bound =
     (if \<not> parts_bound then UnboundLocalError
      else if \<not> priority_bound then UnboundLocalError
      else IndexError)"

definition deallocate_carrier :: "string \<Rightarrow> state \<Rightarrow> error option \<times> state" where
  "deallocate_carrier code st =
     (case split_colon code of
        [i, j, channel, ucode] \<Rightarrow>
          (case map_of (snd st) code of
             None \<Rightarrow> (Some (deallocate_handler True False), st)
           | Some priority \<Rightarrow>
               (let allocated_carriers = AList.delete code (snd st) in
               (case py_int i of
                  None \<Rightarrow> (Some (deallocate_handler True True), (fst st, allocated_carriers))
                | Some a \<Rightarrow>
               (case py_int j of
                  None \<Rightarrow> (Some (deallocate_handler True True), (fst st, allocated_carriers))
                | Some b \<Rightarrow>
               (case py_int channel of
                  None \<Rightarrow> (Some (deallocate_handler True True), (fst st, allocated_carriers))
                | Some c \<Rightarrow>
               (case grid_put (fst st) a b c 0 of
                  Inl e \<Rightarrow> (Some (deallocate_handler True True), (fst st, allocated_carriers))
                | Inr channel_list \<Rightarrow> (None, (channel_list, allocated_carriers))))))))
      | _ \<Rightarrow> (Some (deallocate_handler False False), st))"

section \<open>Raw records\<close>

text \<open>
  \<open>convert_to_raw\<close> walks the dictionary and cuts every code into its four parts (the
  unpacking raises ValueError on any other number of parts, and so does \<open>int\<close> on a
  part that is no integer); it does not read \<open>channel_list\<close>.
\<close>

fun convert_to_raw :: "grid \<Rightarrow> registry \<Rightarrow> error + raw_carrier list" where
  "convert_to_raw channel_list [] = Inr []"
| "convert_to_raw channel_list ((code, priority) # rest) =
     (case split_colon code of
        [i, j, channel, ucode] \<Rightarrow>
          (case py_int i of
             None \<Rightarrow> Inl ValueError
           | Some a \<Rightarrow>
          (case py_int j of
             None \<Rightarrow> Inl ValueError
           | Some b \<Rightarrow>
          (case py_int channel of
             None \<Rightarrow> Inl ValueError
           | Some c \<Rightarrow>
          (case convert_to_raw channel_list rest of
             Inl e \<Rightarrow> Inl e
           | Inr raw_carriers \<Rightarrow>
               Inr (\<lparr>raw_i = a, raw_j = b, raw_channel = c, raw_ucode = ucode,
                     raw_priority = priority\<rparr> # raw_carriers)))))
      | _ \<Rightarrow> Inl ValueError)"

text \<open>
  \<open>convert_from_raw\<close>: for every record the dictionary entry is set, then the slot is
  written. The arrays are local to the call, so a raise leaves nothing behind.
\<close>

fun from_raw_loop :: "raw_carrier list \<Rightarrow> state \<Rightarrow> error + state" where
  "from_raw_loop [] st = Inr st"
| "from_raw_loop (c_data # rest) st =
     (let allocated_carriers =
            AList.update (carrier_code (raw_i c_data) (raw_j c_data) (raw_channel c_data) (raw_ucode c_data))
              (raw_priority c_data) (snd st)
      in case grid_store (fst st) (raw_i c_data) (raw_j c_data) (raw_channel c_data) (raw_ucode c_data) of
           Inl e \<Rightarrow> Inl e
         | Inr channel_list \<Rightarrow> from_raw_loop rest (channel_list, allocated_carriers))"

definition convert_from_raw :: "raw_carrier list \<Rightarrow> nat \<Rightarrow> nat \<Rightarrow> nat \<Rightarrow> error + state" where
  "convert_from_raw raw_data n_i n_j channels =
     from_raw_loop raw_data (np_zeros (n_i + 4) (n_j + 8) channels, [])"

text \<open>\<open>import_data\<close> on a list of raw records: both type tests pass, and the list is converted.\<close>

definition import_data ::
  "raw_carrier list \<Rightarrow> string option \<Rightarrow> nat \<Rightarrow> nat \<Rightarrow> nat \<Rightarrow> error + state" where
  "import_data data data_file n_i n_j channels = convert_from_raw data n_i n_j channels"

section \<open>The carrier manager\<close>

definition process_new_carrier :: "carrier \<Rightarrow> int \<times> int \<times> int \<times> string" where
  "process_new_carrier carrier_info =
     (car_i carrier_info, car_j carrier_info, car_priority carrier_info, car_ucode carrier_info)"

text \<open>
  The \<open>while True\<close> loop of \<open>base_carrier_manager\<close>, on the variables \<open>good_channels\<close>,
  \<open>imperfect_channels\<close> and \<open>priority\<close>: while no channel is good, the beam is scanned
  again with the current priority and the priority is then raised by one. The last
  argument is not a variable of the program: it counts the passes through that branch.
\<close>

function escalate ::
  "grid \<Rightarrow> int \<Rightarrow> int \<Rightarrow> int list \<times> int list \<Rightarrow> int \<Rightarrow> nat
   \<Rightarrow> error + (int list \<times> int list) \<times> int \<times> nat" where
  "escalate channel_list c_i c_j scanned priority n =
     (if fst scanned = [] then
        (case scan_carriers c_i c_j channel_list priority (np_arange 40) of
           Inl e \<Rightarrow> Inl e
         | Inr scanned' \<Rightarrow> escalate channel_list c_i c_j scanned' (priority + 1) (Suc n))
      else Inr (scanned, priority, n))"
  by pat_completeness auto
termination
proof (relation "measure (\<lambda>(g, c_i, c_j, scanned, p, n).
                    if fst scanned = [] then Suc (nat (119 - p)) else 0)", goal_cases)
  case 1
  show ?case by simp
next
  case (2 channel_list c_i c_j scanned priority n scanned')
  then have sc: "scan_carriers c_i c_j channel_list priority (np_arange 40) = Inr scanned'"
    by simp
  from scan_carriers_Inr [OF sc] have "scannable channel_list c_i c_j" .
  from scan_carriers_closed [OF this, of priority] sc
  have "fst scanned' = admissible channel_list c_i c_j priority" by simp
  with admissible_nonempty [of priority channel_list c_i c_j]
  have "fst scanned' = [] \<Longrightarrow> priority < 118" by force
  with 2 show ?case by auto
qed

declare escalate.simps [simp del]

text \<open>
  The first scan of a carrier followed by the loop: lines 372 to 382 of the manager.
\<close>

definition scan_and_escalate ::
  "grid \<Rightarrow> int \<Rightarrow> int \<Rightarrow> int \<Rightarrow> error + (int list \<times> int list) \<times> int \<times> nat" where
  "scan_and_escalate channel_list c_i c_j priority =
     (case scan_carriers c_i c_j channel_list priority (np_arange 40) of
        Inl e \<Rightarrow> Inl e
      | Inr scanned \<Rightarrow> escalate channel_list c_i c_j scanned priority 0)"

text \<open>
  The body of the \<open>for\<close> loop: scan, escalate, and assign the first good channel with
  the priority that the carrier came with. \<open>good_channels[0]\<close> on an empty list would
  raise IndexError.
\<close>

definition manager_step :: "state \<Rightarrow> carrier \<Rightarrow> error + state \<times> carrier" where
  "manager_step st each_new_carrier =
     (case process_new_carrier each_new_carrier of
        (c_i, c_j, priority, u_code) \<Rightarrow>
          (case scan_and_escalate (fst st) c_i c_j priority of
             Inl e \<Rightarrow> Inl e
           | Inr (scanned, priority', n) \<Rightarrow>
               (case fst scanned of
                  [] \<Rightarrow> Inl IndexError
                | channel # _ \<Rightarrow>
                    (case assign_carrier st (car_i each_new_carrier) (car_j each_new_carrier)
                            channel (car_ucode each_new_carrier) (car_priority each_new_carrier) of
                       Inl e \<Rightarrow> Inl e
                     | Inr st' \<Rightarrow>
                         Inr (st', each_new_carrier
                                \<lparr>imperfect_channels := Some (snd scanned),
                                 good_channels := Some (fst scanned),
                                 final_priority := Some priority'\<rparr>)))))"

fun manager_loop :: "carrier list \<Rightarrow> state \<Rightarrow> error + state \<times> carrier list" where
  "manager_loop [] st = Inr (st, [])"
| "manager_loop (each_new_carrier # rest) st =
     (case manager_step st each_new_carrier of
        Inl e \<Rightarrow> Inl e
      | Inr (st', updated) \<Rightarrow>
          (case manager_loop rest st' of
             Inl e \<Rightarrow> Inl e
           | Inr (st'', updated_list) \<Rightarrow> Inr (st'', updated # updated_list)))"

text \<open>
  \<open>base_carrier_manager\<close> returns the arrays and the carriers for \<open>return_format\<close>
  \<open>'read'\<close>, the raw records for \<open>'raw'\<close>, and \<open>None\<close> for any other format.
\<close>

datatype manager_result =
  Read_result state "carrier list"
| Raw_result "raw_carrier list"
| None_result

definition base_carrier_manager ::
  "carrier list \<Rightarrow> nat \<Rightarrow> nat \<Rightarrow> nat \<Rightarrow> raw_carrier list \<Rightarrow> string option \<Rightarrow> string
   \<Rightarrow> error + manager_result" where
  "base_carrier_manager new_carrier_list n_i n_j channels data data_file return_format =
     (case (if 0 < length data \<or> data_file \<noteq> None
            then import_data data data_file n_i n_j channels
            else Inr (np_zeros (n_i + 4) (n_j + 8) 40, [])) of
        Inl e \<Rightarrow> Inl e
      | Inr st \<Rightarrow>
          (case manager_loop new_carrier_list st of
             Inl e \<Rightarrow> Inl e
           | Inr (st', updated_list) \<Rightarrow>
               if return_format = ''read'' then Inr (Read_result st' updated_list)
               else if return_format = ''raw''
               then (case convert_to_raw (fst st') (snd st') of
                       Inl e \<Rightarrow> Inl e
                     | Inr raw_carriers \<Rightarrow> Inr (Raw_result raw_carriers))
               else Inr None_result))"

section \<open>Facts about the escalation\<close>

lemma escalate_first:
  assumes "scannable g c_i c_j" and "fst scanned = []"
  shows "\<exists>t. p \<le> t \<and> admissible g c_i c_j t \<noteq> []
             \<and> (\<forall>s. p \<le> s \<and> s < t \<longrightarrow> admissible g c_i c_j s = [])
             \<and> escalate g c_i c_j scanned p n =
                 Inr ((admissible g c_i c_j t, score_vector g c_i c_j), t + 1, n + nat (t - p) + 1)"
  using assms
proof (induction g c_i c_j scanned p n rule: escalate.induct)
  case (1 g c_i c_j scanned p n)
  let ?s = "(admissible g c_i c_j p, score_vector g c_i c_j)"
  have sc: "scan_carriers c_i c_j g p (np_arange 40) = Inr ?s"
    using scan_carriers_closed [OF "1.prems"(1)] .
  have unf: "escalate g c_i c_j scanned p n = escalate g c_i c_j ?s (p + 1) (Suc n)"
    using "1.prems"(2) sc by (subst escalate.simps) simp
  show ?case
  proof (cases "admissible g c_i c_j p = []")
    case False
    then have "escalate g c_i c_j ?s (p + 1) (Suc n) = Inr (?s, p + 1, Suc n)"
      by (subst escalate.simps) simp
    with unf False show ?thesis by (intro exI [of _ p]) auto
  next
    case True
    from "1.IH" [OF "1.prems"(2) sc "1.prems"(1)] True
    obtain t where t: "p + 1 \<le> t" "admissible g c_i c_j t \<noteq> []"
      "\<forall>s. p + 1 \<le> s \<and> s < t \<longrightarrow> admissible g c_i c_j s = []"
      "escalate g c_i c_j ?s (p + 1) (Suc n) =
         Inr ((admissible g c_i c_j t, score_vector g c_i c_j), t + 1, Suc n + nat (t - (p + 1)) + 1)"
      by auto
    have min: "\<forall>s. p \<le> s \<and> s < t \<longrightarrow> admissible g c_i c_j s = []"
    proof (intro allI impI)
      fix s assume "p \<le> s \<and> s < t"
      then have "s = p \<or> (p + 1 \<le> s \<and> s < t)" by auto
      with True t(3) show "admissible g c_i c_j s = []" by auto
    qed
    have cnt: "Suc n + nat (t - (p + 1)) + 1 = n + nat (t - p) + 1" using t(1) by simp
    show ?thesis
      using t(1,2) min unf t(4) cnt by (intro exI [of _ t]) simp
  qed
qed

lemma scan_and_escalate_good:
  assumes "scannable g c_i c_j" and "admissible g c_i c_j p \<noteq> []"
  shows "scan_and_escalate g c_i c_j p =
           Inr ((admissible g c_i c_j p, score_vector g c_i c_j), p, 0)"
  using assms scan_carriers_closed [OF assms(1), of p]
  by (simp add: scan_and_escalate_def escalate.simps)

lemma scan_and_escalate_none:
  assumes "scannable g c_i c_j" and "admissible g c_i c_j p = []"
  shows "\<exists>t. p \<le> t \<and> t \<le> 118 \<and> admissible g c_i c_j t \<noteq> []
             \<and> (\<forall>s. p \<le> s \<and> s < t \<longrightarrow> admissible g c_i c_j s = [])
             \<and> scan_and_escalate g c_i c_j p =
                 Inr ((admissible g c_i c_j t, score_vector g c_i c_j), t + 1, nat (t - p) + 1)"
proof -
  let ?s = "(admissible g c_i c_j p, score_vector g c_i c_j)"
  from escalate_first [OF assms(1), of ?s p 0] assms(2)
  obtain t where t: "p \<le> t" "admissible g c_i c_j t \<noteq> []"
    "\<forall>s. p \<le> s \<and> s < t \<longrightarrow> admissible g c_i c_j s = []"
    "escalate g c_i c_j ?s p 0 =
       Inr ((admissible g c_i c_j t, score_vector g c_i c_j), t + 1, 0 + nat (t - p) + 1)"
    by auto
  have "p < 118" using assms(2) admissible_nonempty [of p g c_i c_j] by force
  have "t \<le> 118"
  proof (rule ccontr)
    assume "\<not> t \<le> 118"
    with \<open>p < 118\<close> t(3) have "admissible g c_i c_j 118 = []" by simp
    with admissible_nonempty [of 118 g c_i c_j] show False by simp
  qed
  with t scan_carriers_closed [OF assms(1), of p] show ?thesis
    by (intro exI [of _ t]) (simp add: scan_and_escalate_def)
qed

lemma occupied_valid:
  assumes "valid_beam g c_i c_j" and "0 \<le> ch" and "ch < 40"
    and "b \<in> set ((c_i, c_j) # create_neighbour_coords c_i c_j)"
  shows "occupied g b ch = (cells g (nat (fst b), nat (snd b), nat ch) \<noteq> 0)"
proof -
  from assms(4) have "c_i - 2 \<le> fst b \<and> fst b \<le> c_i + 2 \<and> c_j - 4 \<le> snd b \<and> snd b \<le> c_j + 4"
    by (auto simp: neighbour_coords_list)
  with assms(1-3) show ?thesis
    by (simp add: occupied_def valid_beam_def grid_get_def slot_def np_index_def)
qed

lemma admissible_sorted: "sorted_wrt (<) (admissible g c_i c_j t)"
proof -
  have "sorted_wrt (<) (np_arange 40)"
    by (simp add: np_arange_def sorted_wrt_map)
  then show ?thesis unfolding admissible_def by (rule sorted_wrt_filter)
qed

lemma score_vector_nth:
  "k < 40 \<Longrightarrow> 40 \<le> chans g \<Longrightarrow> score_vector g c_i c_j ! k = score g c_i c_j (int k)"
  by (simp add: score_vector_def)

lemma valid_beam_default: "valid_beam (np_zeros 18 22 40) 5 5"
  by (simp add: valid_beam_def np_zeros_def)

section \<open>Facts about carrier codes\<close>

lemma of_char_digit_char: "d < 10 \<Longrightarrow> (of_char (digit_char d) :: nat) = 48 + d"
  by (simp add: digit_char_def)

lemma is_digit_digit_char: "d < 10 \<Longrightarrow> is_digit (digit_char d)"
  by (simp add: is_digit_def of_char_digit_char)

lemma digit_val_digit_char: "d < 10 \<Longrightarrow> digit_val (digit_char d) = d"
  by (simp add: digit_val_def of_char_digit_char)

lemma is_digit_plain:
  "is_digit c \<Longrightarrow> \<not> is_space c \<and> c \<noteq> CHR '':'' \<and> c \<noteq> CHR ''-'' \<and> c \<noteq> CHR ''+'' \<and> c \<noteq> CHR ''_''"
  by (auto simp: is_digit_def is_space_def)

lemma str_nat_digits: "\<forall>c \<in> set (str_nat n). is_digit c"
proof (induction n rule: str_nat.induct)
  case (1 n)
  show ?case
  proof (cases "n < 10")
    case True
    then show ?thesis by (subst str_nat.simps) (simp add: is_digit_digit_char)
  next
    case False
    with 1 show ?thesis by (subst str_nat.simps) (simp add: is_digit_digit_char)
  qed
qed

lemma str_nat_nonempty: "str_nat n \<noteq> []"
  by (subst str_nat.simps) simp

lemma py_digits_digits:
  "\<forall>c \<in> set xs. is_digit c \<Longrightarrow>
     py_digits prev acc (xs @ ys) =
     py_digits (prev \<or> xs \<noteq> []) (foldl (\<lambda>a c. a * 10 + digit_val c) acc xs) ys"
proof (induction xs arbitrary: prev acc)
  case Nil
  then show ?case by simp
next
  case (Cons x xs)
  then show ?case by simp
qed

lemma foldl_str_nat:
  "foldl (\<lambda>a c. a * 10 + digit_val c) acc (str_nat n) = acc * 10 ^ length (str_nat n) + n"
proof (induction n arbitrary: acc rule: str_nat.induct)
  case (1 n)
  show ?case
  proof (cases "n < 10")
    case True
    then show ?thesis by (subst (1 2) str_nat.simps) (simp add: digit_val_digit_char)
  next
    case False
    have "foldl (\<lambda>a c. a * 10 + digit_val c) acc (str_nat n) =
            foldl (\<lambda>a c. a * 10 + digit_val c) acc (str_nat (n div 10)) * 10 + n mod 10"
      using False by (subst str_nat.simps) (simp add: digit_val_digit_char)
    also have "\<dots> = (acc * 10 ^ length (str_nat (n div 10)) + n div 10) * 10 + n mod 10"
      using "1.IH" [OF False] by simp
    also have "\<dots> = acc * 10 ^ length (str_nat n) + n"
      using False by (subst (2) str_nat.simps) (simp add: algebra_simps)
    finally show ?thesis .
  qed
qed

lemma py_digits_str_nat: "py_digits False 0 (str_nat n) = Some n"
  using py_digits_digits [OF str_nat_digits, of False 0 n "[]"]
  by (simp add: foldl_str_nat str_nat_nonempty)

lemma strip_id:
  assumes "s \<noteq> []" and "\<not> is_space (hd s)" and "\<not> is_space (last s)"
  shows "strip s = s"
proof -
  from assms have "dropWhile is_space s = s" by (cases s) simp_all
  moreover from assms have "dropWhile is_space (rev s) = rev s"
    by (cases "rev s") (simp_all add: last_rev [symmetric] hd_rev)
  ultimately show ?thesis by (simp add: strip_def)
qed

lemma strip_str_nat: "strip (str_nat n) = str_nat n"
proof (rule strip_id [OF str_nat_nonempty])
  have "hd (str_nat n) \<in> set (str_nat n)" "last (str_nat n) \<in> set (str_nat n)"
    using str_nat_nonempty by simp_all
  with str_nat_digits [of n] is_digit_plain
  show "\<not> is_space (hd (str_nat n))" "\<not> is_space (last (str_nat n))" by blast+
qed

lemma py_int_str_int: "py_int (str_int k) = Some k"
proof (cases "k < 0")
  case True
  have "last (CHR ''-'' # str_nat (nat (- k))) = last (str_nat (nat (- k)))"
    using str_nat_nonempty by simp
  moreover have "last (str_nat (nat (- k))) \<in> set (str_nat (nat (- k)))"
    using str_nat_nonempty by simp
  ultimately have "\<not> is_space (last (CHR ''-'' # str_nat (nat (- k))))"
    using str_nat_digits [of "nat (- k)"] is_digit_plain by metis
  then have "strip (CHR ''-'' # str_nat (nat (- k))) = CHR ''-'' # str_nat (nat (- k))"
    by (intro strip_id) (simp_all add: is_space_def)
  with True show ?thesis by (simp add: py_int_def str_int_def py_digits_str_nat)
next
  case False
  obtain c cs where s: "str_nat (nat k) = c # cs"
    using str_nat_nonempty [of "nat k"] by (cases "str_nat (nat k)") auto
  then have "is_digit c" using str_nat_digits [of "nat k"] by simp
  then have c: "c \<noteq> CHR ''-''" "c \<noteq> CHR ''+''" using is_digit_plain by blast+
  have "py_digits False 0 (c # cs) = Some (nat k)"
    using py_digits_str_nat [of "nat k"] s by simp
  with False s c strip_str_nat [of "nat k"] show ?thesis
    by (simp add: py_int_def str_int_def)
qed

lemma str_int_no_colon: "CHR '':'' \<notin> set (str_int k)"
  using str_nat_digits is_digit_plain by (auto simp: str_int_def)

lemma split_colon_append:
  "CHR '':'' \<notin> set xs \<Longrightarrow> split_colon (xs @ CHR '':'' # ys) = xs # split_colon ys"
  by (induction xs) auto

lemma split_colon_plain: "CHR '':'' \<notin> set xs \<Longrightarrow> split_colon xs = [xs]"
  by (induction xs) auto

lemma split_carrier_code:
  "CHR '':'' \<notin> set u \<Longrightarrow>
     split_colon (carrier_code i j c u) = [str_int i, str_int j, str_int c, u]"
  by (simp add: carrier_code_def split_colon_append str_int_no_colon split_colon_plain)

section \<open>Facts about the manager\<close>

lemma manager_step_closed:
  assumes sc: "scan_and_escalate g (car_i c) (car_j c) (car_priority c) = Inr ((good, imp), final, n)"
    and gd: "good = channel # rest"
    and sl: "slot g (car_i c) (car_j c) channel = Inr s"
    and cast: "np_cast (car_ucode c) = Inr v"
  shows "manager_step (g, reg) c =
           Inr ((g\<lparr>cells := (cells g)(s := v)\<rparr>,
                 AList.update (carrier_code (car_i c) (car_j c) channel (car_ucode c)) (car_priority c) reg),
                c\<lparr>imperfect_channels := Some imp, good_channels := Some good,
                  final_priority := Some final\<rparr>)"
  using assms
  by (simp add: manager_step_def process_new_carrier_def assign_carrier_def grid_store_def)


text \<open>A carrier as it is handed to the manager.\<close>

definition new_carrier :: "int \<Rightarrow> int \<Rightarrow> int \<Rightarrow> string \<Rightarrow> carrier" where
  "new_carrier i j priority ucode =
     \<lparr>car_i = i, car_j = j, car_priority = priority, car_ucode = ucode,
      imperfect_channels = None, good_channels = None, final_priority = None\<rparr>"



lemma arange_40: "np_arange 40 = 0 # map int [1..<40]"
  by code_simp

lemma valid_beam_slot:
  assumes "valid_beam g c_i c_j" and "0 \<le> ch" and "ch < 40"
  shows "slot g c_i c_j ch = Inr (nat c_i, nat c_j, nat ch)"
  using assms by (simp add: valid_beam_def slot_def np_index_def)

lemma admissible_range:
  "ch \<in> set (admissible g c_i c_j t) \<Longrightarrow> 0 \<le> ch \<and> ch < 40 \<and> score g c_i c_j ch \<le> t"
  by (auto simp: admissible_def np_arange_def)

lemma manager_step_valid:
  assumes vb: "valid_beam g (car_i c) (car_j c)" and cast: "np_cast (car_ucode c) = Inr v"
  shows "\<exists>t channel rest.
           car_priority c \<le> t
           \<and> (\<forall>s. car_priority c \<le> s \<and> s < t \<longrightarrow> admissible g (car_i c) (car_j c) s = [])
           \<and> admissible g (car_i c) (car_j c) t = channel # rest
           \<and> manager_step (g, reg) c =
               Inr ((g\<lparr>cells := (cells g)((nat (car_i c), nat (car_j c), nat channel) := v)\<rparr>,
                     AList.update (carrier_code (car_i c) (car_j c) channel (car_ucode c))
                       (car_priority c) reg),
                    c\<lparr>imperfect_channels := Some (score_vector g (car_i c) (car_j c)),
                      good_channels := Some (channel # rest),
                      final_priority := Some (if t = car_priority c then t else t + 1)\<rparr>)"
proof -
  let ?i = "car_i c" and ?j = "car_j c" and ?p = "car_priority c"
  have scn: "scannable g ?i ?j" by (rule valid_beam_scannable [OF vb])
  have "\<exists>t n. ?p \<le> t \<and> admissible g ?i ?j t \<noteq> []
          \<and> (\<forall>s. ?p \<le> s \<and> s < t \<longrightarrow> admissible g ?i ?j s = [])
          \<and> scan_and_escalate g ?i ?j ?p =
              Inr ((admissible g ?i ?j t, score_vector g ?i ?j), (if t = ?p then t else t + 1), n)"
  proof (cases "admissible g ?i ?j ?p = []")
    case False
    with scan_and_escalate_good [OF scn False] show ?thesis
      by (intro exI [of _ ?p]) auto
  next
    case True
    from scan_and_escalate_none [OF scn True]
    obtain t where t: "?p \<le> t" "admissible g ?i ?j t \<noteq> []"
      "\<forall>s. ?p \<le> s \<and> s < t \<longrightarrow> admissible g ?i ?j s = []"
      "scan_and_escalate g ?i ?j ?p =
         Inr ((admissible g ?i ?j t, score_vector g ?i ?j), t + 1, nat (t - ?p) + 1)"
      by blast
    from t(2) True have "t \<noteq> ?p" by auto
    with t show ?thesis by (intro exI [of _ t]) auto
  qed
  then obtain t n where t: "?p \<le> t" "admissible g ?i ?j t \<noteq> []"
    "\<forall>s. ?p \<le> s \<and> s < t \<longrightarrow> admissible g ?i ?j s = []"
    "scan_and_escalate g ?i ?j ?p =
       Inr ((admissible g ?i ?j t, score_vector g ?i ?j), (if t = ?p then t else t + 1), n)"
    by blast
  from t(2) obtain channel rest where adm: "admissible g ?i ?j t = channel # rest"
    by (cases "admissible g ?i ?j t") auto
  then have "channel \<in> set (admissible g ?i ?j t)" by simp
  from admissible_range [OF this] have "0 \<le> channel" "channel < 40" by simp_all
  from valid_beam_slot [OF vb this]
  have sl: "slot g ?i ?j channel = Inr (nat ?i, nat ?j, nat channel)" .
  from manager_step_closed [OF t(4) adm sl cast, of reg] t(1,3) adm show ?thesis
    by (intro exI [of _ t] exI [of _ channel] exI [of _ rest]) simp
qed

lemma scenario_a_scan:
  "scan_and_escalate (np_zeros 18 22 40) 5 5 0 = Inr ((np_arange 40, replicate 40 0), 0, 0)"
  by code_simp

lemma scenario_b_scan:
  "scan_and_escalate (np_zeros 18 22 40\<lparr>cells := (cells (np_zeros 18 22 40))((5, 5, 0) := 1)\<rparr>) 5 5 0 =
     Inr ((map int [1..<40], 100 # replicate 39 0), 0, 0)"
  by code_simp

lemma new_carrier_fields:
  "car_i (new_carrier i j p u) = i" "car_j (new_carrier i j p u) = j"
  "car_priority (new_carrier i j p u) = p" "car_ucode (new_carrier i j p u) = u"
  by (simp_all add: new_carrier_def)

lemma scenario_a_step:
  "manager_step (np_zeros 18 22 40, []) (new_carrier 5 5 0 ''1'') =
     Inr ((np_zeros 18 22 40\<lparr>cells := (cells (np_zeros 18 22 40))((5, 5, 0) := 1)\<rparr>,
           [(''5:5:0:1'', 0)]),
          (new_carrier 5 5 0 ''1'')
            \<lparr>imperfect_channels := Some (replicate 40 0), good_channels := Some (np_arange 40),
             final_priority := Some 0\<rparr>)"
proof -
  let ?c = "new_carrier 5 5 0 ''1''"
  have sc: "scan_and_escalate (np_zeros 18 22 40) (car_i ?c) (car_j ?c) (car_priority ?c) =
              Inr ((np_arange 40, replicate 40 0), 0, 0)"
    unfolding new_carrier_fields by (rule scenario_a_scan)
  have sl: "slot (np_zeros 18 22 40) (car_i ?c) (car_j ?c) 0 = Inr (5, 5, 0)"
    unfolding new_carrier_fields by code_simp
  have cast: "np_cast (car_ucode ?c) = Inr 1" unfolding new_carrier_fields by code_simp
  have code: "carrier_code 5 5 0 ''1'' = ''5:5:0:1''" by code_simp
  from manager_step_closed [OF sc arange_40 sl cast, of "[]"] show ?thesis
    by (simp add: new_carrier_fields code)
qed

lemma scenario_b_step:
  "manager_step (np_zeros 18 22 40\<lparr>cells := (cells (np_zeros 18 22 40))((5, 5, 0) := 1)\<rparr>,
                 [(''5:5:0:1'', 0)]) (new_carrier 5 5 0 ''2'') =
     Inr ((np_zeros 18 22 40\<lparr>cells := (cells (np_zeros 18 22 40))((5, 5, 0) := 1, (5, 5, 1) := 2)\<rparr>,
           [(''5:5:0:1'', 0), (''5:5:1:2'', 0)]),
          (new_carrier 5 5 0 ''2'')
            \<lparr>imperfect_channels := Some (100 # replicate 39 0),
             good_channels := Some (map int [1..<40]),
             final_priority := Some 0\<rparr>)"
proof -
  let ?c = "new_carrier 5 5 0 ''2''"
  let ?g = "np_zeros 18 22 40\<lparr>cells := (cells (np_zeros 18 22 40))((5, 5, 0) := 1)\<rparr>"
  have sc: "scan_and_escalate ?g (car_i ?c) (car_j ?c) (car_priority ?c) =
              Inr ((map int [1..<40], 100 # replicate 39 0), 0, 0)"
    unfolding new_carrier_fields by (rule scenario_b_scan)
  have gd: "map int [1..<40] = 1 # map int [2..<40]" by code_simp
  have sl: "slot ?g (car_i ?c) (car_j ?c) 1 = Inr (5, 5, 1)"
    unfolding new_carrier_fields by (simp add: slot_def np_index_def np_zeros_def)
  have cast: "np_cast (car_ucode ?c) = Inr 2" unfolding new_carrier_fields by code_simp
  have code: "carrier_code 5 5 1 ''2'' = ''5:5:1:2''" by code_simp
  from manager_step_closed [OF sc gd sl cast, of "[(''5:5:0:1'', 0)]"] show ?thesis
    by (simp add: new_carrier_fields code)
qed

lemma np_cast_u1: "np_cast ''u1'' = Inl ValueError"
  by code_simp

lemma scenario_u1_step:
  "manager_step (np_zeros 18 22 40, reg) (new_carrier 5 5 0 ''u1'') = Inl ValueError"
proof -
  have sl: "slot (np_zeros 18 22 40) 5 5 0 = Inr (5, 5, 0)" by code_simp
  show ?thesis
    by (simp add: manager_step_def process_new_carrier_def new_carrier_fields scenario_a_scan
        arange_40 assign_carrier_def grid_store_def sl np_cast_u1)
qed






section \<open>Facts about deallocation and raw records\<close>

lemma deallocate_absent:
  assumes "map_of reg code = None"
  shows "deallocate_carrier code (g, reg) = (Some UnboundLocalError, (g, reg))"
  using assms
  by (simp add: deallocate_carrier_def deallocate_handler_def split: list.splits)

lemma deallocate_present:
  assumes "map_of reg code = Some priority"
    and "split_colon code = [i, j, channel, ucode]"
    and "py_int i = Some a" and "py_int j = Some b" and "py_int channel = Some c"
    and "slot g a b c = Inr s"
  shows "deallocate_carrier code (g, reg) =
           (None, (g\<lparr>cells := (cells g)(s := 0)\<rparr>, AList.delete code reg))"
  using assms by (simp add: deallocate_carrier_def grid_put_def)

lemma deallocate_outside:
  assumes "map_of reg code = Some priority"
    and "split_colon code = [i, j, channel, ucode]"
    and "py_int i = Some a" and "py_int j = Some b" and "py_int channel = Some c"
    and "slot g a b c = Inl e"
  shows "deallocate_carrier code (g, reg) = (Some IndexError, (g, AList.delete code reg))"
  using assms by (simp add: deallocate_carrier_def grid_put_def deallocate_handler_def)

text \<open>The four parts of a carrier code, as \<open>convert_to_raw\<close> and \<open>deallocate_carrier\<close> read them.\<close>

definition parse_key :: "string \<Rightarrow> (int \<times> int \<times> int \<times> string) option" where
  "parse_key code =
     (case split_colon code of
        [i, j, channel, ucode] \<Rightarrow>
          (case py_int i of
             None \<Rightarrow> None
           | Some a \<Rightarrow>
               (case py_int j of
                  None \<Rightarrow> None
                | Some b \<Rightarrow>
                    (case py_int channel of
                       None \<Rightarrow> None
                     | Some c \<Rightarrow> Some (a, b, c, ucode))))
      | _ \<Rightarrow> None)"

















section \<open>Facts about collisions\<close>

lemma strip_covers: "c \<in> set s \<Longrightarrow> is_space c \<or> c \<in> set (strip s)"
proof -
  assume c: "c \<in> set s"
  have split: "set xs \<subseteq> {c. is_space c} \<union> set (dropWhile is_space xs)" for xs :: string
  proof -
    have "set xs = set (takeWhile is_space xs) \<union> set (dropWhile is_space xs)"
      by (metis set_append takeWhile_dropWhile_id)
    moreover have "set (takeWhile is_space xs) \<subseteq> {c. is_space c}"
      by (auto dest: set_takeWhileD)
    ultimately show ?thesis by auto
  qed
  let ?d = "dropWhile is_space s"
  from split [of s] c have "is_space c \<or> c \<in> set ?d" by auto
  moreover from split [of "rev ?d"] have "set ?d \<subseteq> {c. is_space c} \<union> set (strip s)"
    by (simp add: strip_def)
  ultimately show ?thesis by auto
qed

lemma py_digits_chars:
  "py_digits prev acc cs = Some n \<Longrightarrow> \<forall>c \<in> set cs. is_digit c \<or> c = CHR ''_''"
  by (induction prev acc cs rule: py_digits.induct) (auto split: if_splits)

lemma py_int_no_colon:
  assumes "py_int u = Some v"
  shows "CHR '':'' \<notin> set u"
proof
  assume "CHR '':'' \<in> set u"
  from strip_covers [OF this] have in_strip: "CHR '':'' \<in> set (strip u)"
    by (simp add: is_space_def)
  from assms obtain c cs where s: "strip u = c # cs"
    by (cases "strip u") (simp_all add: py_int_def)
  have nd: "\<not> is_digit CHR '':''" by (simp add: is_digit_def)
  from assms s consider
      (signed) n where "py_digits False 0 cs = Some n" "c = CHR ''-'' \<or> c = CHR ''+''"
    | (plain) n where "py_digits False 0 (c # cs) = Some n"
    by (auto simp: py_int_def simp del: py_digits.simps split: if_splits)
  then have "\<forall>x \<in> set (c # cs). is_digit x \<or> x = CHR ''_'' \<or> x = CHR ''-'' \<or> x = CHR ''+''"
  proof cases
    case signed
    with py_digits_chars [of False 0 cs n] show ?thesis by auto
  next
    case plain
    from py_digits_chars [OF this] show ?thesis by blast
  qed
  with in_strip s nd show False by auto
qed

lemma np_cast_no_colon: "np_cast u = Inr v \<Longrightarrow> CHR '':'' \<notin> set u"
  by (auto simp: np_cast_def split: option.splits dest: py_int_no_colon)

lemma parse_carrier_code:
  "CHR '':'' \<notin> set u \<Longrightarrow> parse_key (carrier_code a b c u) = Some (a, b, c, u)"
  by (simp add: parse_key_def split_carrier_code py_int_str_int)

lemma update_fresh:
  "k \<notin> fst ` set al \<Longrightarrow> AList.update k v al = al @ [(k, v)]"
  by (induction al) auto

text \<open>
  The (beam, channel) pair that a key of the dictionary claims, the pairs claimed by a
  dictionary, and the dictionaries in which no pair is claimed twice.
\<close>

definition key_slot :: "string \<Rightarrow> (int \<times> int \<times> int) option" where
  "key_slot code =
     (case parse_key code of None \<Rightarrow> None | Some (a, b, c, u) \<Rightarrow> Some (a, b, c))"

definition active_slots :: "registry \<Rightarrow> (int \<times> int \<times> int) list" where
  "active_slots reg = List.map_filter key_slot (map fst reg)"

definition no_collision :: "registry \<Rightarrow> bool" where
  "no_collision reg = distinct (active_slots reg)"

text \<open>
  A state is consistent when its dictionary has no key twice and no (beam, channel)
  pair twice, and every pair that a key claims is an occupied slot of the array.
\<close>

definition claimed_occupied :: "grid \<Rightarrow> string \<Rightarrow> bool" where
  "claimed_occupied g code =
     (case key_slot code of None \<Rightarrow> True | Some (a, b, c) \<Rightarrow> occupied g (a, b) c)"

definition consistent :: "state \<Rightarrow> bool" where
  "consistent st =
     (distinct (map fst (snd st)) \<and> no_collision (snd st)
      \<and> list_all (claimed_occupied (fst st)) (map fst (snd st)))"

text \<open>
  A list of carriers has room in a state when each carrier in its turn comes with a
  priority below 100 and a unique code whose number is not 0, finds a channel that is
  empty in its beam, and is allocated.
\<close>

definition free_channel :: "grid \<Rightarrow> carrier \<Rightarrow> bool" where
  "free_channel g c = list_ex (\<lambda>ch. \<not> occupied g (car_i c, car_j c) ch) (np_arange 40)"

fun has_room :: "state \<Rightarrow> carrier list \<Rightarrow> bool" where
  "has_room st [] = True"
| "has_room st (c # cs) =
     (car_priority c < 100 \<and> np_cast (car_ucode c) \<noteq> Inr 0 \<and> free_channel (fst st) c
      \<and> (case manager_step st c of Inl e \<Rightarrow> False | Inr (st', c') \<Rightarrow> has_room st' cs))"

lemma admissible_iff:
  "ch \<in> set (admissible g c_i c_j t) \<longleftrightarrow> ch \<in> set (np_arange 40) \<and> score g c_i c_j ch \<le> t"
  by (simp add: admissible_def)

lemma score_free: "\<not> occupied g (c_i, c_j) ch \<Longrightarrow> score g c_i c_j ch \<le> 18"
  using length_filter_le [of "\<lambda>b. occupied g b ch" "create_neighbour_coords c_i c_j"]
  by (simp add: score_def neighbour_coords_length)

lemma score_taken: "occupied g (c_i, c_j) ch \<Longrightarrow> 100 \<le> score g c_i c_j ch"
  by (simp add: score_def)

lemma manager_step_success:
  assumes "manager_step (g, reg) c = Inr (st', c')"
  shows "\<exists>t channel rest s v.
           car_priority c \<le> t
           \<and> (\<forall>x. car_priority c \<le> x \<and> x < t \<longrightarrow> admissible g (car_i c) (car_j c) x = [])
           \<and> admissible g (car_i c) (car_j c) t = channel # rest
           \<and> slot g (car_i c) (car_j c) channel = Inr s
           \<and> np_cast (car_ucode c) = Inr v
           \<and> st' = (g\<lparr>cells := (cells g)(s := v)\<rparr>,
                    AList.update (carrier_code (car_i c) (car_j c) channel (car_ucode c))
                      (car_priority c) reg)"
proof -
  let ?i = "car_i c" and ?j = "car_j c" and ?p = "car_priority c"
  from assms obtain r where se: "scan_and_escalate g ?i ?j ?p = Inr r"
    by (auto simp: manager_step_def process_new_carrier_def split: sum.splits)
  then obtain sc where "scan_carriers ?i ?j g ?p (np_arange 40) = Inr sc"
    by (auto simp: scan_and_escalate_def split: sum.splits)
  from scan_carriers_Inr [OF this] have scn: "scannable g ?i ?j" .
  have "\<exists>t fin n. ?p \<le> t \<and> admissible g ?i ?j t \<noteq> []
          \<and> (\<forall>x. ?p \<le> x \<and> x < t \<longrightarrow> admissible g ?i ?j x = [])
          \<and> scan_and_escalate g ?i ?j ?p =
              Inr ((admissible g ?i ?j t, score_vector g ?i ?j), fin, n)"
  proof (cases "admissible g ?i ?j ?p = []")
    case False
    with scan_and_escalate_good [OF scn False] show ?thesis
      by (intro exI [of _ ?p]) auto
  next
    case True
    from scan_and_escalate_none [OF scn True] show ?thesis by blast
  qed
  then obtain t fin n where t: "?p \<le> t" "admissible g ?i ?j t \<noteq> []"
    "\<forall>x. ?p \<le> x \<and> x < t \<longrightarrow> admissible g ?i ?j x = []"
    "scan_and_escalate g ?i ?j ?p = Inr ((admissible g ?i ?j t, score_vector g ?i ?j), fin, n)"
    by blast
  from t(2) obtain channel rest where adm: "admissible g ?i ?j t = channel # rest"
    by (cases "admissible g ?i ?j t") auto
  from assms t(4) adm
  have "assign_carrier (g, reg) ?i ?j channel (car_ucode c) ?p = Inr st'"
    by (auto simp: manager_step_def process_new_carrier_def split: sum.splits)
  then obtain s v where "slot g ?i ?j channel = Inr s" "np_cast (car_ucode c) = Inr v"
    "st' = (g\<lparr>cells := (cells g)(s := v)\<rparr>,
            AList.update (carrier_code ?i ?j channel (car_ucode c)) ?p reg)"
    by (auto simp: assign_carrier_def grid_store_def split: sum.splits)
  with t(1,3) adm show ?thesis by blast
qed

lemma slot_cells: "slot (g\<lparr>cells := f\<rparr>) a b ch = slot g a b ch"
  by (simp add: slot_def cong: sum.case_cong)

lemma occupied_update:
  "occupied (g\<lparr>cells := (cells g)(s := v)\<rparr>) (a, b) ch =
     (if slot g a b ch = Inr s then v \<noteq> 0 else occupied g (a, b) ch)"
proof (cases "slot g a b ch")
  case (Inl e)
  then show ?thesis by (simp add: occupied_def grid_get_def slot_cells)
next
  case (Inr s')
  then show ?thesis by (simp add: occupied_def grid_get_def slot_cells)
qed

lemma occupied_slot: "occupied g (a, b) ch \<Longrightarrow> \<exists>s. slot g a b ch = Inr s"
  by (cases "slot g a b ch") (auto simp: occupied_def grid_get_def)

lemma active_slots_append:
  "active_slots (reg @ [(k, p)]) =
     active_slots reg @ (case key_slot k of None \<Rightarrow> [] | Some x \<Rightarrow> [x])"
  by (simp add: active_slots_def List.map_filter_def split: option.splits)

lemma active_slots_member:
  "x \<in> set (active_slots reg) \<longleftrightarrow> (\<exists>k \<in> fst ` set reg. key_slot k = Some x)"
proof -
  have "set (List.map_filter f xs) = {y. \<exists>x \<in> set xs. f x = Some y}" for f :: "string \<Rightarrow> (int \<times> int \<times> int) option" and xs
    by (induction xs) (auto split: option.splits)
  then show ?thesis by (auto simp: active_slots_def)
qed

lemma consistent_step:
  assumes cons: "consistent (g, reg)"
    and step: "manager_step (g, reg) c = Inr (st', c')"
    and prio: "car_priority c < 100"
    and nz: "np_cast (car_ucode c) \<noteq> Inr 0"
    and free: "free_channel g c"
  shows "consistent st'"
proof -
  let ?i = "car_i c" and ?j = "car_j c" and ?p = "car_priority c" and ?u = "car_ucode c"
  from manager_step_success [OF step]
  obtain t channel rest s v where t: "?p \<le> t"
    and least: "\<forall>x. ?p \<le> x \<and> x < t \<longrightarrow> admissible g ?i ?j x = []"
    and adm: "admissible g ?i ?j t = channel # rest"
    and sl: "slot g ?i ?j channel = Inr s"
    and cast: "np_cast ?u = Inr v"
    and st': "st' = (g\<lparr>cells := (cells g)(s := v)\<rparr>,
                     AList.update (carrier_code ?i ?j channel ?u) ?p reg)"
    by blast
  from nz cast have v: "v \<noteq> 0" by auto
  \<comment> \<open>the threshold stays below 100, so the chosen channel is empty in the beam\<close>
  from free obtain f where f: "f \<in> set (np_arange 40)" "\<not> occupied g (?i, ?j) f"
    by (auto simp: free_channel_def list_ex_iff)
  have "t < 100"
  proof (rule ccontr)
    assume "\<not> t < 100"
    with prio have "?p \<le> max ?p 18 \<and> max ?p 18 < t" by auto
    with least have "admissible g ?i ?j (max ?p 18) = []" by blast
    moreover from f score_free [OF f(2)] have "f \<in> set (admissible g ?i ?j (max ?p 18))"
      by (simp add: admissible_iff)
    ultimately show False by simp
  qed
  from adm have "channel \<in> set (admissible g ?i ?j t)" by simp
  then have "score g ?i ?j channel \<le> t" by (simp add: admissible_iff)
  with \<open>t < 100\<close> score_taken [of g ?i ?j channel] have empty: "\<not> occupied g (?i, ?j) channel"
    by fastforce
  \<comment> \<open>the new key claims the chosen slot, which no key of the dictionary claims\<close>
  let ?k = "carrier_code ?i ?j channel ?u"
  have ks: "key_slot ?k = Some (?i, ?j, channel)"
    using parse_carrier_code [OF np_cast_no_colon [OF cast]] by (simp add: key_slot_def)
  from cons have d: "distinct (map fst reg)" and nc: "distinct (active_slots reg)"
    and occ: "\<forall>k \<in> fst ` set reg. claimed_occupied g k"
    by (auto simp: consistent_def no_collision_def list_all_iff)
  have unclaimed: "(?i, ?j, channel) \<notin> set (active_slots reg)"
  proof
    assume "(?i, ?j, channel) \<in> set (active_slots reg)"
    then obtain k where "k \<in> fst ` set reg" "key_slot k = Some (?i, ?j, channel)"
      by (auto simp: active_slots_member)
    with occ have "occupied g (?i, ?j) channel" by (force simp: claimed_occupied_def)
    with empty show False by simp
  qed
  have fresh: "?k \<notin> fst ` set reg"
  proof
    assume "?k \<in> fst ` set reg"
    with ks have "(?i, ?j, channel) \<in> set (active_slots reg)"
      unfolding active_slots_member by blast
    with unclaimed show False by simp
  qed
  have reg': "snd st' = reg @ [(?k, ?p)]" using st' update_fresh [OF fresh] by simp
  have d': "distinct (map fst (snd st'))" using d fresh by (simp add: reg')
  have nc': "no_collision (snd st')"
    using nc unclaimed by (simp add: no_collision_def reg' active_slots_append ks)
  have occ': "list_all (claimed_occupied (fst st')) (map fst (snd st'))"
  proof -
    have new: "claimed_occupied (fst st') ?k"
      using sl v by (simp add: claimed_occupied_def ks st' occupied_update)
    have old: "claimed_occupied (fst st') k" if "k \<in> fst ` set reg" for k
    proof (cases "key_slot k")
      case None
      then show ?thesis by (simp add: claimed_occupied_def)
    next
      case (Some x)
      obtain a b ch where x: "x = (a, b, ch)" by (cases x)
      from occ that Some x have "occupied g (a, b) ch" by (force simp: claimed_occupied_def)
      with v Some x show ?thesis
        by (simp add: claimed_occupied_def st' occupied_update)
    qed
    from new old show ?thesis by (auto simp: list_all_iff reg')
  qed
  from d' nc' occ' show ?thesis by (simp add: consistent_def)
qed

lemma consistent_loop:
  assumes "consistent st" and "has_room st cs"
  shows "\<exists>st' cs'. manager_loop cs st = Inr (st', cs') \<and> consistent st'"
  using assms
proof (induction cs arbitrary: st)
  case Nil
  then show ?case by simp
next
  case (Cons c cs)
  obtain g reg where st: "st = (g, reg)" by (cases st)
  from Cons.prems(2) obtain st1 c1 where step: "manager_step st c = Inr (st1, c1)"
    and room: "has_room st1 cs"
    and side: "car_priority c < 100" "np_cast (car_ucode c) \<noteq> Inr 0" "free_channel (fst st) c"
    by (auto split: sum.splits)
  from consistent_step [OF _ _ side(1,2)] Cons.prems(1) step side(3) st
  have "consistent st1" by simp
  from Cons.IH [OF this room] step show ?case by auto
qed

text \<open>A state in which the 40 channels of beam \<open>(5, 5)\<close> are held by the carriers 1 to 40.\<close>

definition full_beam :: grid where
  "full_beam =
     np_zeros 18 22 40
       \<lparr>cells := (\<lambda>s. if fst s = 5 \<and> fst (snd s) = 5 then int (snd (snd s)) + 1 else 0)\<rparr>"

definition full_registry :: registry where
  "full_registry = map (\<lambda>c. (carrier_code 5 5 (int c) (str_int (int c + 1)), 0)) [0..<40]"

lemma full_consistent: "consistent (full_beam, full_registry)"
  by code_simp

lemma full_scores: "map (score full_beam 5 5) (np_arange 40) = replicate 40 100"
  by code_simp

lemma full_vector: "score_vector full_beam 5 5 = replicate 40 100"
  by code_simp

lemma full_collides: "\<not> no_collision (full_registry @ [(''5:5:0:41'', 0)])"
  by code_simp

text \<open>The dictionary that the loop of the manager leaves, when it returns.\<close>

definition registry_after :: "state \<Rightarrow> carrier list \<Rightarrow> registry option" where
  "registry_after st cs =
     (case manager_loop cs st of Inl e \<Rightarrow> None | Inr (st', cs') \<Rightarrow> Some (snd st'))"

lemma registry_after_Nil: "registry_after st [] = Some (snd st)"
  by (simp add: registry_after_def)

lemma registry_after_Cons:
  "manager_step st c = Inr (st', c') \<Longrightarrow> registry_after st (c # cs) = registry_after st' cs"
  by (simp add: registry_after_def split: sum.splits)

lemma step_registry:
  assumes "scan_and_escalate g i j p = Inr ((channel # rest, imp), final, n)"
    and "slot g i j channel = Inr s" and "np_cast u = Inr v"
  shows "manager_step (g, reg) (new_carrier i j p u) =
           Inr ((g\<lparr>cells := (cells g)(s := v)\<rparr>, AList.update (carrier_code i j channel u) p reg),
                (new_carrier i j p u)
                  \<lparr>imperfect_channels := Some imp, good_channels := Some (channel # rest),
                   final_priority := Some final\<rparr>)"
  using manager_step_closed [of g "new_carrier i j p u" "channel # rest" imp final n channel rest s v reg]
    assms
  by (simp add: new_carrier_fields)

lemma slot_5_5_0: "slot (np_zeros 18 22 40\<lparr>cells := f\<rparr>) 5 5 0 = Inr (5, 5, 0)"
  by (simp add: slot_def np_index_def np_zeros_def)

lemma collide_priority:
  "registry_after (np_zeros 18 22 40, []) [new_carrier 5 5 0 ''1'', new_carrier 5 5 100 ''2''] =
     Some [(''5:5:0:1'', 0), (''5:5:0:2'', 100)]"
proof -
  let ?g1 = "np_zeros 18 22 40\<lparr>cells := (cells (np_zeros 18 22 40))((5, 5, 0) := 1)\<rparr>"
  have sc: "scan_and_escalate ?g1 5 5 100 = Inr ((0 # map int [1..<40], 100 # replicate 39 0), 100, 0)"
    by code_simp
  have cast: "np_cast ''2'' = Inr 2" by code_simp
  have code: "carrier_code 5 5 0 ''2'' = ''5:5:0:2''" by code_simp
  from step_registry [OF sc slot_5_5_0 cast, of "[(''5:5:0:1'', 0)]"]
  show ?thesis
    by (simp add: registry_after_Cons [OF scenario_a_step] registry_after_Cons registry_after_Nil code)
qed

lemma collide_zero:
  "registry_after (np_zeros 18 22 40, []) [new_carrier 5 5 0 ''0'', new_carrier 5 5 0 ''7''] =
     Some [(''5:5:0:0'', 0), (''5:5:0:7'', 0)]"
proof -
  let ?g0 = "np_zeros 18 22 40"
  let ?g1 = "?g0\<lparr>cells := (cells ?g0)((5, 5, 0) := 0)\<rparr>"
  have sc0: "scan_and_escalate ?g0 5 5 0 = Inr ((0 # map int [1..<40], replicate 40 0), 0, 0)"
    by code_simp
  have sc1: "scan_and_escalate ?g1 5 5 0 = Inr ((0 # map int [1..<40], replicate 40 0), 0, 0)"
    by code_simp
  have cast: "np_cast ''0'' = Inr 0" "np_cast ''7'' = Inr 7" by code_simp+
  have code: "carrier_code 5 5 0 ''0'' = ''5:5:0:0''" "carrier_code 5 5 0 ''7'' = ''5:5:0:7''"
    by code_simp+
  have sl0: "slot ?g0 5 5 0 = Inr (5, 5, 0)" by code_simp
  note s1 = step_registry [OF sc0 sl0 cast(1), of "[]"]
  note s2 = step_registry [OF sc1 slot_5_5_0 cast(2), of "[(''5:5:0:0'', 0)]"]
  from s2 show ?thesis
    by (simp add: registry_after_Cons [OF s1] registry_after_Cons registry_after_Nil code)
qed

lemma collide_stale:
  "registry_after (np_zeros 18 22 40, [(''5:5:0:1'', 0)]) [new_carrier 5 5 0 ''2''] =
     Some [(''5:5:0:1'', 0), (''5:5:0:2'', 0)]"
proof -
  let ?g0 = "np_zeros 18 22 40"
  have sc0: "scan_and_escalate ?g0 5 5 0 = Inr ((0 # map int [1..<40], replicate 40 0), 0, 0)"
    by code_simp
  have cast: "np_cast ''2'' = Inr 2" by code_simp
  have code: "carrier_code 5 5 0 ''2'' = ''5:5:0:2''" by code_simp
  have sl0: "slot ?g0 5 5 0 = Inr (5, 5, 0)" by code_simp
  from step_registry [OF sc0 sl0 cast, of "[(''5:5:0:1'', 0)]"] show ?thesis
    by (simp add: registry_after_Cons registry_after_Nil code)
qed

lemma full_admissible:
  "admissible full_beam 5 5 t = (if 100 \<le> t then np_arange 40 else [])"
proof -
  have "\<forall>ch \<in> set (np_arange 40). score full_beam 5 5 ch = 100"
  proof
    fix ch assume "ch \<in> set (np_arange 40)"
    then obtain k where k: "k < length (np_arange 40)" "ch = np_arange 40 ! k"
      by (auto simp: in_set_conv_nth)
    then have "score full_beam 5 5 ch = map (score full_beam 5 5) (np_arange 40) ! k" by simp
    also have "\<dots> = replicate 40 100 ! k" by (simp only: full_scores)
    also have "\<dots> = 100" using k(1) by (simp add: np_arange_def)
    finally show "score full_beam 5 5 ch = 100" .
  qed
  then have "filter (\<lambda>ch. score full_beam 5 5 ch \<le> t) (np_arange 40) =
               filter (\<lambda>ch. 100 \<le> t) (np_arange 40)"
    by (intro filter_cong) simp_all
  then show ?thesis by (simp add: admissible_def)
qed

lemma collide_full:
  "registry_after (full_beam, full_registry) [new_carrier 5 5 0 ''41''] =
     Some (full_registry @ [(''5:5:0:41'', 0)])"
proof -
  have vb: "valid_beam full_beam 5 5" by (simp add: valid_beam_def full_beam_def np_zeros_def)
  have cast: "np_cast ''41'' = Inr 41" by code_simp
  have code: "carrier_code 5 5 0 ''41'' = ''5:5:0:41''" by code_simp
  have fresh: "''5:5:0:41'' \<notin> fst ` set full_registry" by code_simp
  let ?c = "new_carrier 5 5 0 ''41''"
  from manager_step_valid [of full_beam ?c 41 full_registry] vb cast
  obtain t channel rest st' c' where t: "admissible full_beam 5 5 t = channel # rest"
    and step: "manager_step (full_beam, full_registry) ?c = Inr (st', c')"
    and reg: "snd st' = AList.update (carrier_code 5 5 channel ''41'') 0 full_registry"
    by (auto simp: new_carrier_fields)
  from t have "channel = 0" by (simp add: full_admissible arange_40 split: if_splits)
  with reg code update_fresh [OF fresh] have "snd st' = full_registry @ [(''5:5:0:41'', 0)]"
    by simp
  with step show ?thesis by (simp add: registry_after_Cons registry_after_Nil)
qed

section \<open>Properties\<close>



text \<open>
  Claim C2. For a beam inside the logical extent of an array with 40 channels and for
  every threshold, \<open>scan_carriers\<close> returns: a score vector that gives each of the 40
  channels 100 if the channel is occupied in the beam itself, plus one for each of the
  18 neighbour coordinates where it is occupied; and as good channels exactly the
  channels whose score is at most the threshold, in ascending order.
\<close>

theorem scan_carriers_correct:
  assumes "valid_beam g c_i c_j"
  shows "\<exists>good imp.
           scan_carriers c_i c_j g threshold (np_arange 40) = Inr (good, imp)
           \<and> (\<forall>k < 40. imp ! k =
                 (if occupied g (c_i, c_j) (int k) then 100 else 0)
                 + int (card {b \<in> set (create_neighbour_coords c_i c_j). occupied g b (int k)}))
           \<and> good = filter (\<lambda>ch. imp ! nat ch \<le> threshold) (np_arange 40)
           \<and> sorted_wrt (<) good"
proof -
  have ch: "40 \<le> chans g" using assms by (simp add: valid_beam_def)
  have sc: "scan_carriers c_i c_j g threshold (np_arange 40) =
              Inr (admissible g c_i c_j threshold, score_vector g c_i c_j)"
    by (rule scan_carriers_closed [OF valid_beam_scannable [OF assms]])
  have nth: "\<forall>k < 40. score_vector g c_i c_j ! k =
               (if occupied g (c_i, c_j) (int k) then 100 else 0)
               + int (card {b \<in> set (create_neighbour_coords c_i c_j). occupied g b (int k)})"
  proof (intro allI impI)
    fix k :: nat assume k: "k < 40"
    have "length (filter (\<lambda>b. occupied g b (int k)) (create_neighbour_coords c_i c_j)) =
            card {b \<in> set (create_neighbour_coords c_i c_j). occupied g b (int k)}"
      using distinct_card [OF distinct_filter [OF neighbour_coords_distinct [of c_i c_j]],
          of "\<lambda>b. occupied g b (int k)"]
      by simp
    with k ch show "score_vector g c_i c_j ! k =
               (if occupied g (c_i, c_j) (int k) then 100 else 0)
               + int (card {b \<in> set (create_neighbour_coords c_i c_j). occupied g b (int k)})"
      by (simp add: score_vector_nth score_def)
  qed
  have adm: "admissible g c_i c_j threshold =
               filter (\<lambda>ch. score_vector g c_i c_j ! nat ch \<le> threshold) (np_arange 40)"
    unfolding admissible_def
    by (rule filter_cong) (auto simp: np_arange_def score_vector_nth [OF _ ch])
  from sc nth adm admissible_sorted [of g c_i c_j threshold] show ?thesis by simp
qed

theorem scan_carriers_correct_witness:
  "valid_beam (np_zeros 18 22 40) 5 5
   \<and> (\<exists>good imp.
         scan_carriers 5 5 (np_zeros 18 22 40) 0 (np_arange 40) = Inr (good, imp)
         \<and> imp ! 0 = 0 \<and> good = filter (\<lambda>ch. imp ! nat ch \<le> 0) (np_arange 40)
         \<and> sorted_wrt (<) good)"
proof -
  have occ: "occupied (np_zeros 18 22 40) b ch = False" for b ch
    by (simp add: occupied_def grid_get_def np_zeros_def split: sum.splits)
  from scan_carriers_correct [OF valid_beam_default, of 0]
  obtain good imp where r:
    "scan_carriers 5 5 (np_zeros 18 22 40) 0 (np_arange 40) = Inr (good, imp)"
    "\<forall>k < 40. imp ! k = (if occupied (np_zeros 18 22 40) (5, 5) (int k) then 100 else 0)
        + int (card {b \<in> set (create_neighbour_coords 5 5). occupied (np_zeros 18 22 40) b (int k)})"
    "good = filter (\<lambda>ch. imp ! nat ch \<le> 0) (np_arange 40)" "sorted_wrt (<) good"
    by blast
  from r(2) have "imp ! 0 = 0" by (simp add: occ)
  with r valid_beam_default show ?thesis by blast
qed










text \<open>
  Claim C7, as the program has it, with the unique codes \<open>1\<close> and \<open>2\<close>. From the empty
  default array of 18 by 22 beams and 40 channels, the carrier \<open>1\<close> at beam \<open>(5, 5)\<close>
  with priority 0 gets channel 0, with a score vector of zeros; the carrier \<open>2\<close> at the
  same beam with priority 0 then finds the score 100 for channel 0 and the score 0 for
  the channels 1 to 39, which are good at threshold 0: the loop does not raise the
  priority, the final priority is 0, and the carrier gets channel 1.
\<close>

theorem scenario_a_then_b:
  "base_carrier_manager [new_carrier 5 5 0 ''1'', new_carrier 5 5 0 ''2''] 14 14 40 [] None ''read'' =
     Inr (Read_result
            (np_zeros 18 22 40\<lparr>cells := (cells (np_zeros 18 22 40))((5, 5, 0) := 1, (5, 5, 1) := 2)\<rparr>,
             [(''5:5:0:1'', 0), (''5:5:1:2'', 0)])
            [(new_carrier 5 5 0 ''1'')
               \<lparr>imperfect_channels := Some (replicate 40 0), good_channels := Some (np_arange 40),
                final_priority := Some 0\<rparr>,
             (new_carrier 5 5 0 ''2'')
               \<lparr>imperfect_channels := Some (100 # replicate 39 0),
                good_channels := Some (map int [1..<40]),
                final_priority := Some 0\<rparr>])"
  by (simp add: base_carrier_manager_def scenario_a_step scenario_b_step)

text \<open>
  Claim C7 as stated fails twice: the unique code \<open>u1\<close> cannot be stored in the array of
  floats, so the first allocation raises ValueError; and with channel 0 of the beam
  taken the scan at threshold 0 returns the channels 1 to 39 at once, so the priority
  stays 0 and the loop makes no pass.
\<close>

theorem scenario_as_stated:
  "base_carrier_manager [new_carrier 5 5 0 ''u1''] 14 14 40 [] None ''read'' = Inl ValueError
   \<and> scan_and_escalate
         (np_zeros 18 22 40\<lparr>cells := (cells (np_zeros 18 22 40))((5, 5, 0) := 1)\<rparr>) 5 5 0 =
       Inr ((map int [1..<40], 100 # replicate 39 0), 0, 0)"
  by (simp add: base_carrier_manager_def scenario_u1_step scenario_b_scan)




text \<open>
  Claim C6, on the program. For a key that is not in the dictionary the lookup raises
  KeyError inside the \<open>try\<close>; the handler then reads \<open>priority\<close>, which was never bound,
  and UnboundLocalError leaves the function: the array and the dictionary are
  unchanged, but the failure is the crash of the recovery path and not a report of the
  unknown key. For a key that is in the dictionary but names no slot of the array, the
  entry is deleted, the slot is not cleared, and the recovery, which indexes the array
  with strings, raises IndexError: the entry stays deleted.
\<close>

theorem deallocate_unknown_key:
  "deallocate_carrier ''5:5:0:9'' (np_zeros 18 22 40, []) =
     (Some UnboundLocalError, (np_zeros 18 22 40, []))
   \<and> deallocate_carrier ''99:5:0:1'' (np_zeros 18 22 40, [(''99:5:0:1'', 0)]) =
       (Some IndexError, (np_zeros 18 22 40, []))"
proof -
  have sp: "split_colon ''99:5:0:1'' = [''99'', ''5'', ''0'', ''1'']" by code_simp
  have p: "py_int ''99'' = Some 99" "py_int ''5'' = Some 5" "py_int ''0'' = Some 0" by code_simp+
  have sl: "slot (np_zeros 18 22 40) 99 5 0 = Inl IndexError" by code_simp
  have m: "map_of [(''99:5:0:1'', 0::int)] ''99:5:0:1'' = Some 0" by simp
  from deallocate_outside [OF m sp p sl] deallocate_absent [of "[]" "''5:5:0:9''" "np_zeros 18 22 40"]
  show ?thesis by simp
qed



text \<open>
  Claim C1, as the program has it. From a consistent state (no key twice, no (beam,
  channel) pair claimed by two keys, every claimed pair an occupied slot), a sequence of
  allocations in which every carrier comes with a priority below 100 and a unique code
  whose number is not 0, and finds an empty channel in its beam when its turn comes,
  returns and leaves a consistent state: no two keys of the dictionary share a (beam,
  channel) pair.
\<close>

theorem no_collision_preserved:
  assumes "consistent st" and "has_room st cs"
  shows "\<exists>st' cs'. manager_loop cs st = Inr (st', cs') \<and> consistent st' \<and> no_collision (snd st')"
  using consistent_loop [OF assms] by (auto simp: consistent_def)

theorem no_collision_preserved_witness:
  "consistent (np_zeros 18 22 40, [])
   \<and> has_room (np_zeros 18 22 40, []) [new_carrier 5 5 0 ''1'', new_carrier 5 5 0 ''2'']
   \<and> (\<exists>st' cs'.
         manager_loop [new_carrier 5 5 0 ''1'', new_carrier 5 5 0 ''2''] (np_zeros 18 22 40, []) =
           Inr (st', cs')
         \<and> consistent st' \<and> no_collision (snd st'))"
proof -
  let ?g0 = "np_zeros 18 22 40"
  let ?g1 = "?g0\<lparr>cells := (cells ?g0)((5, 5, 0) := 1)\<rparr>"
  have c: "consistent (?g0, [])"
    by (simp add: consistent_def no_collision_def active_slots_def)
  have cast: "np_cast ''1'' = Inr 1" "np_cast ''2'' = Inr 2" by code_simp+
  have f0: "free_channel ?g0 (new_carrier 5 5 0 ''1'')" by code_simp
  have f1: "free_channel ?g1 (new_carrier 5 5 0 ''2'')" by code_simp
  have r: "has_room (?g0, []) [new_carrier 5 5 0 ''1'', new_carrier 5 5 0 ''2'']"
    by (simp add: new_carrier_fields cast f0 f1 scenario_a_step scenario_b_step)
  from no_collision_preserved [OF c r] c r show ?thesis by blast
qed

text \<open>
  Claim C1 as stated fails, in four ways. A carrier of priority 100 accepts channel 0
  of a beam in which channel 0 is taken. A carrier with the unique code \<open>0\<close> leaves its
  slot at 0, which reads as empty, so the next carrier of the beam gets the same
  channel. From a state whose dictionary has a key for a slot that is empty in the
  array, the first allocation takes that slot. And in a consistent state where a beam
  holds 40 carriers, the 41st is escalated to threshold 100 and put on channel 0. Each
  run returns normally, with two keys for beam \<open>(5, 5)\<close> and channel 0.
\<close>

theorem allocations_can_collide:
  "registry_after (np_zeros 18 22 40, []) [new_carrier 5 5 0 ''1'', new_carrier 5 5 100 ''2''] =
     Some [(''5:5:0:1'', 0), (''5:5:0:2'', 100)]
   \<and> registry_after (np_zeros 18 22 40, []) [new_carrier 5 5 0 ''0'', new_carrier 5 5 0 ''7''] =
       Some [(''5:5:0:0'', 0), (''5:5:0:7'', 0)]
   \<and> registry_after (np_zeros 18 22 40, [(''5:5:0:1'', 0)]) [new_carrier 5 5 0 ''2''] =
       Some [(''5:5:0:1'', 0), (''5:5:0:2'', 0)]
   \<and> consistent (full_beam, full_registry)
   \<and> registry_after (full_beam, full_registry) [new_carrier 5 5 0 ''41''] =
       Some (full_registry @ [(''5:5:0:41'', 0)])
   \<and> \<not> no_collision [(''5:5:0:1'', 0), (''5:5:0:2'', 100)]
   \<and> \<not> no_collision [(''5:5:0:0'', 0), (''5:5:0:7'', 0)]
   \<and> \<not> no_collision [(''5:5:0:1'', 0), (''5:5:0:2'', 0)]
   \<and> \<not> no_collision (full_registry @ [(''5:5:0:41'', 0)])"
proof -
  have "\<not> no_collision [(''5:5:0:1'', 0), (''5:5:0:2'', 100)]"
    "\<not> no_collision [(''5:5:0:0'', 0), (''5:5:0:7'', 0)]"
    "\<not> no_collision [(''5:5:0:1'', 0), (''5:5:0:2'', 0)]"
    by code_simp+
  with collide_priority collide_zero collide_stale collide_full full_consistent full_collides
  show ?thesis by simp
qed

end
